theory Spec2Isabelle
  imports Main
begin

section \<open>Data model\<close>

text \<open>
  The graph database hands out path objects made of nodes and relationships.  A node
  carries its \<open>device_name\<close> and its \<open>cost\<close> property, a relationship its two end
  nodes and its own \<open>cost\<close> property (field \<open>rel_cost\<close>).  A candidate is either such
  a path object or a Python string (the "no path available" placeholder), so \<open>path\<close>
  is a tagged union of the two.

  The objects are those of the database driver (the neo4j library, which is not part of the
  repository).  Every node and relationship object also knows its \<open>element_id\<close> in the
  database and the \<open>graph\<close> container of the query result it was read into (a number
  here; the driver makes one container per query result).
\<close>

record node =
  device_name :: string
  cost :: int
  element_id :: string
  graph :: nat

record relationship =
  start_node :: node
  end_node :: node
  rel_cost :: int
  rel_element_id :: string
  rel_graph :: nat

datatype path = Str string | Path (nodes: "node list") (relationships: "relationship list")

text \<open>
  The \<open>driver\<close> is the connection to the database.  The only thing the evaluator asks
  it is the \<open>cost\<close> property of a node (by name) and of an edge (by the names of its
  end points); the property may be unset (\<open>None\<close>).
\<close>

record driver =
  node_cost_prop :: "string \<Rightarrow> int option"
  edge_cost_prop :: "string \<times> string \<Rightarrow> int option"

type_synonym candidate = "path \<times> int"
type_synonym combination = "candidate list \<times> int"

text \<open>
  Equality of the driver's objects (\<open>==\<close>), modelled after the library: two nodes, or two
  relationships, are equal when they have the same graph container and the same element
  id; two path objects are equal when their start nodes and their relationships are
  equal; a string equals only the same string.  The start node is \<open>nodes[0]\<close>, read here
  through \<open>take 1\<close> so that the comparison is defined for every value of the type.
\<close>

definition node_eq :: "node \<Rightarrow> node \<Rightarrow> bool" where
  "node_eq n m \<longleftrightarrow> graph n = graph m \<and> element_id n = element_id m"

definition relationship_eq :: "relationship \<Rightarrow> relationship \<Rightarrow> bool" where
  "relationship_eq r q \<longleftrightarrow> rel_graph r = rel_graph q \<and> rel_element_id r = rel_element_id q"

fun path_eq :: "path \<Rightarrow> path \<Rightarrow> bool" where
  "path_eq (Str s) (Str t) = (s = t)"
| "path_eq (Path ns rs) (Path ms qs) =
     (list_all2 node_eq (take 1 ns) (take 1 ms) \<and> list_all2 relationship_eq rs qs)"
| "path_eq (Str s) (Path ms qs) = False"
| "path_eq (Path ns rs) (Str t) = False"

text \<open>
  Equality of two \<open>(path, cost)\<close> tuples, and the test \<open>x in xs\<close> on a list of them.
  Python's \<open>in\<close> also accepts an element that is the very same object; an object is
  equal to itself under \<open>path_eq\<close>, so that case is covered.
\<close>

definition candidate_eq :: "candidate \<Rightarrow> candidate \<Rightarrow> bool" where
  "candidate_eq x y \<longleftrightarrow> path_eq (fst x) (fst y) \<and> snd x = snd y"

definition candidate_in :: "candidate \<Rightarrow> candidate list \<Rightarrow> bool" where
  "candidate_in x xs = list_ex (candidate_eq x) xs"

section \<open>The evaluator of 1013.py (pairwise first occurrence)\<close>

definition get_node_cost :: "driver \<Rightarrow> string \<Rightarrow> int" where
  "get_node_cost drv node_name =
     (case node_cost_prop drv node_name of Some c \<Rightarrow> c | None \<Rightarrow> 0)"

definition get_edge_cost :: "driver \<Rightarrow> string \<times> string \<Rightarrow> int" where
  "get_edge_cost drv edge =
     (case edge_cost_prop drv edge of Some c \<Rightarrow> c | None \<Rightarrow> 0)"

text \<open>The two comprehensions at the head of \<open>calculate_total_path_cost\<close>: the names of
  \<open>path.nodes[1:]\<close> and the name pairs of \<open>path.relationships\<close>, empty for a string.\<close>

definition path_nodes :: "path \<Rightarrow> string set" where
  "path_nodes p = (case p of Str s \<Rightarrow> {} | Path ns rs \<Rightarrow> set (map device_name (tl ns)))"

definition path_edges :: "path \<Rightarrow> (string \<times> string) set" where
  "path_edges p =
     (case p of Str s \<Rightarrow> {}
      | Path ns rs \<Rightarrow>
          set (map (\<lambda>r. (device_name (start_node r), device_name (end_node r))) rs))"

text \<open>
  One round of the outer loop.  The state is
  \<open>(visited_nodes, visited_edges, overlapping_nodes_cost, overlapping_edges_cost)\<close>.
  The inner loops run over a Python set, so every element is met once and the order is
  immaterial: a node of the current path is charged iff it was visited by an earlier
  path, and all of them are visited afterwards.
\<close>

fun overlap_step ::
  "driver \<Rightarrow> string set \<times> (string \<times> string) set \<times> int \<times> int
     \<Rightarrow> string set \<times> (string \<times> string) set
     \<Rightarrow> string set \<times> (string \<times> string) set \<times> int \<times> int" where
  "overlap_step drv (visited_nodes, visited_edges, onc, oec) (node_set, edge_set) =
     (visited_nodes \<union> node_set, visited_edges \<union> edge_set,
      onc + (\<Sum>n \<in> node_set \<inter> visited_nodes. get_node_cost drv n),
      oec + (\<Sum>e \<in> edge_set \<inter> visited_edges. get_edge_cost drv e))"

definition calculate_total_path_cost ::
  "driver \<Rightarrow> path list \<Rightarrow> int list \<Rightarrow> int \<times> string set" where
  "calculate_total_path_cost drv paths sub_costs =
     (let all_nodes = map path_nodes paths;
          all_edges = map path_edges paths
      in case foldl (overlap_step drv) ({}, {}, 0, 0) (zip all_nodes all_edges) of
           (visited_nodes, visited_edges, overlapping_nodes_cost, overlapping_edges_cost) \<Rightarrow>
             (sum_list sub_costs - overlapping_nodes_cost - overlapping_edges_cost,
              visited_nodes))"

section \<open>The evaluator of userStory4.py (set intersection)\<close>

definition path_nodes_userStory4 :: "path \<Rightarrow> (string \<times> int) set" where
  "path_nodes_userStory4 p =
     (case p of Str s \<Rightarrow> {}
      | Path ns rs \<Rightarrow> set (map (\<lambda>n. (device_name n, cost n)) (tl ns)))"

definition path_rels_userStory4 :: "path \<Rightarrow> (string \<times> string \<times> int) set" where
  "path_rels_userStory4 p =
     (case p of Str s \<Rightarrow> {}
      | Path ns rs \<Rightarrow>
          set (map (\<lambda>r. (device_name (start_node r), device_name (end_node r), rel_cost r))
                 rs))"

text \<open>\<open>set.intersection\<close> applied to the unpacked list of sets, which the code does for two
  sets or more.\<close>

definition set_intersection :: "'a set list \<Rightarrow> 'a set" where
  "set_intersection sets = foldl (\<inter>) (hd sets) (tl sets)"

definition calculate_total_path_cost_userStory4 ::
  "path list \<Rightarrow> int list \<Rightarrow> int \<times> string set" where
  "calculate_total_path_cost_userStory4 paths sub_costs =
     (let all_nodes = map path_nodes_userStory4 paths;
          all_rels = map path_rels_userStory4 paths;
          overlapping_nodes =
            (if length all_nodes > 1 then set_intersection all_nodes else {});
          overlapping_rels =
            (if length all_rels > 1 then set_intersection all_rels else {});
          overlapping_nodes_cost =
            (if overlapping_nodes \<noteq> {} then (\<Sum>(n, c) \<in> overlapping_nodes. c) else 0);
          overlapping_rels_cost =
            (if overlapping_rels \<noteq> {} then (\<Sum>(s, e, c) \<in> overlapping_rels. c) else 0);
          total_overlapping_cost = overlapping_nodes_cost + overlapping_rels_cost
      in (sum_list sub_costs - total_overlapping_cost, fst ` overlapping_nodes))"

section \<open>The search of 1013.py\<close>

definition is_str :: "path \<Rightarrow> bool" where
  "is_str p = (case p of Str s \<Rightarrow> True | Path ns rs \<Rightarrow> False)"

fun path_already_exists :: "combination list \<Rightarrow> candidate list \<Rightarrow> int \<Rightarrow> bool" where
  "path_already_exists [] new_path new_cost = False"
| "path_already_exists ((pth, c) # paths_costs) new_path new_cost =
     (if c = new_cost \<and> list_all (\<lambda>p. candidate_in p pth) new_path then True
      else path_already_exists paths_costs new_path new_cost)"

text \<open>The innermost loop of the search: every combination of the recursive call is
  appended to \<open>combined_paths_costs\<close> unless \<open>path_already_exists\<close> rejects it.\<close>

definition append_new :: "combination list \<Rightarrow> combination list \<Rightarrow> combination list" where
  "append_new combined_paths_costs subs =
     foldl (\<lambda>acc sub. case sub of (sub_path, sub_cost) \<Rightarrow>
              if \<not> path_already_exists acc sub_path sub_cost
              then acc @ [(sub_path, sub_cost)] else acc)
       combined_paths_costs subs"

text \<open>
  The memo dictionary is keyed by
  \<open>(current_cost, paths_tuple, frozenset(visited_destinations))\<close>, where \<open>paths_tuple\<close>
  holds \<open>(str(p), c)\<close> for the paths chosen so far.  \<open>str\<close> of a path object is the
  database library's and is a parameter here (\<open>str_of\<close>).  The dictionary is mutated
  in place in the source; the model returns it next to the result.  The argument is
  \<open>None\<close> for the top-level call, which then starts from an empty dictionary.

  \<open>all_paths_info\<close> is a dictionary iterated in insertion order: an association list.
  \<open>combined_paths_costs.sort(key=...)\<close> is a stable sort, as \<open>sort_key\<close> is.
\<close>

type_synonym memo_key = "int \<times> (string \<times> int) list \<times> string set"
type_synonym memo = "memo_key \<Rightarrow> combination list option"

definition memo_or_new :: "memo option \<Rightarrow> memo" where
  "memo_or_new memo = (case memo of None \<Rightarrow> Map.empty | Some m \<Rightarrow> m)"

function calculate_combined_paths_cost ::
  "driver \<Rightarrow> (path \<Rightarrow> string) \<Rightarrow> (string \<times> candidate list) list \<Rightarrow> candidate list \<Rightarrow> int
     \<Rightarrow> string set \<Rightarrow> memo option \<Rightarrow> combination list \<times> memo" where
  "calculate_combined_paths_cost drv str_of [] current_path current_cost
       visited_destinations memo =
     ([(current_path, current_cost)], memo_or_new memo)"
| "calculate_combined_paths_cost drv str_of (x # xs) current_path current_cost
       visited_destinations memo =
     (let all_paths_info = x # xs;
          memo0 = memo_or_new memo;
          paths_tuple = map (\<lambda>(p, c). (str_of p, c)) current_path;
          memo_key = (current_cost, paths_tuple, visited_destinations)
      in case memo0 memo_key of
           Some stored \<Rightarrow> (stored, memo0)
         | None \<Rightarrow>
            (case
               foldl (\<lambda>acc item. case item of (destination_name, paths_and_costs) \<Rightarrow>
                   if destination_name \<in> visited_destinations then acc
                   else
                     foldl (\<lambda>acc pc. case pc of (p, c) \<Rightarrow>
                         if is_str p then acc
                         else (case acc of (combined_paths_costs, memo1) \<Rightarrow>
                           let new_path = current_path @ [(p, c)];
                               total_cost =
                                 fst (calculate_total_path_cost drv
                                        (map fst new_path) (map snd new_path));
                               new_visited_destinations =
                                 visited_destinations \<union> {destination_name};
                               remaining_destinations =
                                 filter (\<lambda>(key, val). key \<notin> new_visited_destinations)
                                   all_paths_info
                           in case calculate_combined_paths_cost drv str_of
                                     remaining_destinations new_path total_cost
                                     new_visited_destinations (Some memo1) of
                                (subs, memo2) \<Rightarrow>
                                  (append_new combined_paths_costs subs, memo2)))
                       acc paths_and_costs)
                 ([], memo0) all_paths_info
             of (combined_paths_costs, memo3) \<Rightarrow>
               (let sorted_costs = sort_key snd combined_paths_costs
                in (take 5 sorted_costs, memo3(memo_key \<mapsto> take 5 sorted_costs)))))"
  by pat_completeness auto

lemma remaining_destinations_shorter:
  "(d, pcs) \<in> set api \<Longrightarrow>
   length (filter (\<lambda>(key, val). key \<notin> visited \<union> {d}) api) < length api"
  by (rule length_filter_less [where x = "(d, pcs)"]) auto

lemma calculate_combined_paths_cost_total: "All calculate_combined_paths_cost_dom"
proof (relation "measure (\<lambda>(drv, str_of, api, rest). length api)", goal_cases)
  case 1
  show ?case by simp
next
  case 2
  then show ?case
    by (simp only: in_measure prod.case) (metis remaining_destinations_shorter)
qed

termination calculate_combined_paths_cost
  by (rule calculate_combined_paths_cost_total)

text \<open>
  \<open>find_all_paths_to_destinations\<close> builds the candidate-list map.  \<open>run_query\<close> is the
  answer of the database to the path query for a source and a destination (the list of
  \<open>(path, totalCost)\<close> records); \<open>dict_set\<close> is the assignment \<open>d[k] = v\<close> on a
  dictionary kept in insertion order.
\<close>

fun dict_set :: "('k \<times> 'v) list \<Rightarrow> 'k \<Rightarrow> 'v \<Rightarrow> ('k \<times> 'v) list" where
  "dict_set [] k v = [(k, v)]"
| "dict_set ((k', v') # d) k v = (if k' = k then (k, v) # d else (k', v') # dict_set d k v)"

definition find_all_paths_to_destinations ::
  "(string \<Rightarrow> string \<Rightarrow> candidate list) \<Rightarrow> string \<Rightarrow> string list
     \<Rightarrow> (string \<times> candidate list) list" where
  "find_all_paths_to_destinations run_query source_name destination_names =
     foldl (\<lambda>all_paths_info destination_name.
              let paths_and_costs = run_query source_name destination_name
              in if paths_and_costs \<noteq> [] then dict_set all_paths_info destination_name paths_and_costs
                 else all_paths_info)
       [] destination_names"

text \<open>The bodies of the two \<open>for\<close> loops of the search, named for the proofs.\<close>

definition search_path_step ::
  "driver \<Rightarrow> (path \<Rightarrow> string) \<Rightarrow> (string \<times> candidate list) list \<Rightarrow> candidate list
     \<Rightarrow> string set \<Rightarrow> string \<Rightarrow> combination list \<times> memo \<Rightarrow> candidate
     \<Rightarrow> combination list \<times> memo" where
  "search_path_step drv str_of all_paths_info current_path visited_destinations destination_name =
     (\<lambda>acc pc. case pc of (p, c) \<Rightarrow>
         if is_str p then acc
         else (case acc of (combined_paths_costs, memo1) \<Rightarrow>
           let new_path = current_path @ [(p, c)];
               total_cost =
                 fst (calculate_total_path_cost drv
                        (map fst new_path) (map snd new_path));
               new_visited_destinations =
                 visited_destinations \<union> {destination_name};
               remaining_destinations =
                 filter (\<lambda>(key, val). key \<notin> new_visited_destinations)
                   all_paths_info
           in case calculate_combined_paths_cost drv str_of
                     remaining_destinations new_path total_cost
                     new_visited_destinations (Some memo1) of
                (subs, memo2) \<Rightarrow>
                  (append_new combined_paths_costs subs, memo2)))"

definition search_destination_step ::
  "driver \<Rightarrow> (path \<Rightarrow> string) \<Rightarrow> (string \<times> candidate list) list \<Rightarrow> candidate list
     \<Rightarrow> string set \<Rightarrow> combination list \<times> memo \<Rightarrow> string \<times> candidate list
     \<Rightarrow> combination list \<times> memo" where
  "search_destination_step drv str_of all_paths_info current_path visited_destinations =
     (\<lambda>acc item. case item of (destination_name, paths_and_costs) \<Rightarrow>
         if destination_name \<in> visited_destinations then acc
         else
           foldl (search_path_step drv str_of all_paths_info current_path
                    visited_destinations destination_name)
             acc paths_and_costs)"

section \<open>Notions the statements use\<close>

text \<open>A node (an edge) is shared when two different paths of the list contain it.\<close>

definition shared_nodes :: "path list \<Rightarrow> string set" where
  "shared_nodes paths =
     {n. \<exists>i j. i < j \<and> j < length paths \<and> n \<in> path_nodes (paths ! i) \<and> n \<in> path_nodes (paths ! j)}"

definition shared_edges :: "path list \<Rightarrow> (string \<times> string) set" where
  "shared_edges paths =
     {e. \<exists>i j. i < j \<and> j < length paths \<and> e \<in> path_edges (paths ! i) \<and> e \<in> path_edges (paths ! j)}"

text \<open>
  For the set-intersection evaluator: the elements that lie on every path of a list of two
  paths or more, and the paths whose nodes (outside the source) and relationships carry
  no negative cost.
\<close>

definition on_every_path :: "(path \<Rightarrow> 'a set) \<Rightarrow> path list \<Rightarrow> 'a set" where
  "on_every_path f paths = {x. 1 < length paths \<and> (\<forall>p \<in> set paths. x \<in> f p)}"

definition path_costs_nonneg :: "path \<Rightarrow> bool" where
  "path_costs_nonneg p \<longleftrightarrow>
     (\<forall>(n, c) \<in> path_nodes_userStory4 p. 0 \<le> c) \<and>
     (\<forall>(s, e, c) \<in> path_rels_userStory4 p. 0 \<le> c)"

text \<open>
  The path objects and the cost look-ups read the same database: a path is consistent
  with the driver when every node of \<open>path.nodes[1:]\<close> and every relationship carries the
  cost the driver returns for its name (for the names of its end points).
\<close>

definition path_consistent :: "driver \<Rightarrow> path \<Rightarrow> bool" where
  "path_consistent drv p =
     (case p of Str s \<Rightarrow> True
      | Path ns rs \<Rightarrow>
          list_all (\<lambda>n. get_node_cost drv (device_name n) = cost n) (tl ns) \<and>
          list_all (\<lambda>r. get_edge_cost drv (device_name (start_node r), device_name (end_node r))
                          = rel_cost r) rs)"



definition sorted_and_bounded :: "combination list \<Rightarrow> bool" where
  "sorted_and_bounded res \<longleftrightarrow> sorted (map snd res) \<and> length res \<le> 5"

text \<open>
  A call of the search is the tuple of its arguments; \<open>call_map\<close> and \<open>call_visited\<close>
  read the candidate-list map and the visited set of a call.
\<close>

type_synonym search_call =
  "driver \<times> (path \<Rightarrow> string) \<times> (string \<times> candidate list) list \<times> candidate list \<times> int
     \<times> string set \<times> memo option"

definition call_map :: "search_call \<Rightarrow> (string \<times> candidate list) list" where
  "call_map = (\<lambda>(drv, str_of, all_paths_info, current_path, current_cost, visited, memo).
                 all_paths_info)"

definition call_visited :: "search_call \<Rightarrow> string set" where
  "call_visited = (\<lambda>(drv, str_of, all_paths_info, current_path, current_cost, visited, memo).
                     visited)"

text \<open>A property holds of every list stored in the memo dictionary.\<close>

definition memo_all :: "(combination list \<Rightarrow> bool) \<Rightarrow> memo \<Rightarrow> bool" where
  "memo_all P m \<longleftrightarrow> (\<forall>k r. m k = Some r \<longrightarrow> P r)"

text \<open>
  The overlap cost of the pairwise evaluator in closed form, and the elements it charges:
  those of a set that an earlier set (or the start set) already holds.
\<close>

fun overlap_total :: "('a \<Rightarrow> int) \<Rightarrow> 'a set \<Rightarrow> 'a set list \<Rightarrow> int" where
  "overlap_total g V [] = 0"
| "overlap_total g V (N # Ns) = (\<Sum>x \<in> N \<inter> V. g x) + overlap_total g (V \<union> N) Ns"

fun seen_again :: "'a set \<Rightarrow> 'a set list \<Rightarrow> 'a set" where
  "seen_again V [] = {}"
| "seen_again V (N # Ns) = (N \<inter> V) \<union> seen_again (V \<union> N) Ns"

subsection \<open>Example data\<close>

text \<open>A small graph: source \<open>S\<close>, destinations \<open>D1\<close>, \<open>D2\<close>, \<open>D3\<close> (cost 0, the
  default of \<open>set_default_costs\<close>), relays of cost 1, every edge of cost 1.\<close>

definition ex_drv :: driver where
  "ex_drv = \<lparr>node_cost_prop =
              (\<lambda>n. if n \<in> {''S'', ''D1'', ''D2'', ''D3''} then Some 0 else Some 1),
            edge_cost_prop = (\<lambda>e. Some 1)\<rparr>"

definition ex_path :: "(string \<times> int) list \<Rightarrow> path" where
  "ex_path names =
     (let ns = map (\<lambda>(n, c). \<lparr>device_name = n, cost = c, element_id = n, graph = 0\<rparr>) names
      in Path ns
           (map (\<lambda>(a, b). \<lparr>start_node = a, end_node = b, rel_cost = 1,
                             rel_element_id = device_name a @ ''-'' @ device_name b,
                             rel_graph = 0\<rparr>)
              (zip ns (tl ns))))"

definition ex_S_A_D1 :: path where
  "ex_S_A_D1 = ex_path [(''S'', 0), (''A'', 1), (''D1'', 0)]"
definition ex_S_A_M_D1 :: path where
  "ex_S_A_M_D1 = ex_path [(''S'', 0), (''A'', 1), (''M'', 1), (''D1'', 0)]"
definition ex_S_B_M_D2 :: path where
  "ex_S_B_M_D2 = ex_path [(''S'', 0), (''B'', 1), (''M'', 1), (''D2'', 0)]"
definition ex_S_A_D3_D1 :: path where
  "ex_S_A_D3_D1 = ex_path [(''S'', 0), (''A'', 1), (''D3'', 0), (''D1'', 0)]"
definition ex_S_B_D3_D2 :: path where
  "ex_S_B_D3_D2 = ex_path [(''S'', 0), (''B'', 1), (''D3'', 0), (''D2'', 0)]"
definition ex_S_C_D3 :: path where
  "ex_S_C_D3 = ex_path [(''S'', 0), (''C'', 1), (''D3'', 0)]"

text \<open>A \<open>str\<close> for path objects, a candidate-list map with two destinations, and a
  database that knows one path to \<open>D1\<close> and none to \<open>D2\<close>.\<close>

definition ex_str_of :: "path \<Rightarrow> string" where
  "ex_str_of p = (case p of Str s \<Rightarrow> s | Path ns rs \<Rightarrow> concat (map device_name ns))"

definition ex_api_two :: "(string \<times> candidate list) list" where
  "ex_api_two = [(''D1'', [(ex_S_A_M_D1, 5), (ex_S_A_D1, 3)]), (''D2'', [(ex_S_B_M_D2, 5)])]"

definition ex_via :: "string \<Rightarrow> path" where
  "ex_via relay = ex_path [(''S'', 0), (relay, 1), (''D1'', 0)]"

definition ex_api_six :: "(string \<times> candidate list) list" where
  "ex_api_six =
     [(''D1'', [(ex_via ''R1'', 3), (ex_via ''R2'', 3), (ex_via ''R3'', 3),
               (ex_via ''R4'', 3), (ex_via ''R5'', 3), (ex_via ''R6'', 3)])]"

text \<open>
  A second path object over the devices \<open>S\<close>, \<open>A\<close>, \<open>D1\<close>: the same nodes, joined by
  other relationships of the database (parallel edges, with element ids of their own).
\<close>

definition ex_S_A_D1_parallel :: path where
  "ex_S_A_D1_parallel =
     Path (nodes ex_S_A_D1)
       (map (\<lambda>r. r\<lparr>rel_element_id := rel_element_id r @ ''/2''\<rparr>) (relationships ex_S_A_D1))"


definition ex_query :: "string \<Rightarrow> string \<Rightarrow> candidate list" where
  "ex_query source_name destination_name =
     (if source_name = ''S'' \<and> destination_name = ''D1'' then [(ex_S_A_D1, 3)] else [])"

section \<open>Facts about the evaluators\<close>

lemmas ex_defs = ex_path_def ex_S_A_D1_def ex_S_A_M_D1_def ex_S_B_M_D2_def ex_S_A_D3_D1_def
  ex_S_B_D3_D2_def ex_S_C_D3_def

lemma ex_costs [simp]:
  "get_node_cost ex_drv n = (if n \<in> {''S'', ''D1'', ''D2'', ''D3''} then 0 else 1)"
  "get_edge_cost ex_drv e = 1"
  by (simp_all add: get_node_cost_def get_edge_cost_def ex_drv_def)

lemma shared_nodes_single [simp]: "shared_nodes [p] = {}"
  by (auto simp: shared_nodes_def)

lemma shared_nodes_pair: "shared_nodes [p, q] = path_nodes p \<inter> path_nodes q"
proof -
  have "(i < j \<and> j < length [p, q]) \<longleftrightarrow> (i = 0 \<and> j = 1)" for i j :: nat
    by (auto simp: less_Suc_eq)
  then have "shared_nodes [p, q] =
      {n. \<exists>i j. (i = 0 \<and> j = 1) \<and> n \<in> path_nodes ([p, q] ! i) \<and> n \<in> path_nodes ([p, q] ! j)}"
    unfolding shared_nodes_def by (simp only: conj_assoc [symmetric])
  then show ?thesis by auto
qed

lemma shared_edges_pair: "shared_edges [p, q] = path_edges p \<inter> path_edges q"
proof -
  have "(i < j \<and> j < length [p, q]) \<longleftrightarrow> (i = 0 \<and> j = 1)" for i j :: nat
    by (auto simp: less_Suc_eq)
  then have "shared_edges [p, q] =
      {n. \<exists>i j. (i = 0 \<and> j = 1) \<and> n \<in> path_edges ([p, q] ! i) \<and> n \<in> path_edges ([p, q] ! j)}"
    unfolding shared_edges_def by (simp only: conj_assoc [symmetric])
  then show ?thesis by auto
qed

lemma foldl_overlap_step:
  "foldl (overlap_step drv) (vn, ve, a, b) (zip (map path_nodes ps) (map path_edges ps)) =
     (vn \<union> \<Union>(path_nodes ` set ps), ve \<union> \<Union>(path_edges ` set ps),
      a + overlap_total (get_node_cost drv) vn (map path_nodes ps),
      b + overlap_total (get_edge_cost drv) ve (map path_edges ps))"
  by (induction ps arbitrary: vn ve a b) (auto simp: Un_assoc)

lemma calculate_total_path_cost_eq:
  "calculate_total_path_cost drv ps cs =
     (sum_list cs - overlap_total (get_node_cost drv) {} (map path_nodes ps)
        - overlap_total (get_edge_cost drv) {} (map path_edges ps),
      \<Union>(path_nodes ` set ps))"
  by (simp add: calculate_total_path_cost_def foldl_overlap_step)

lemma overlap_total_nonneg: "(\<And>x. 0 \<le> g x) \<Longrightarrow> 0 \<le> overlap_total g V Ns"
  by (induction Ns arbitrary: V) (auto intro!: add_nonneg_nonneg sum_nonneg)

lemma overlap_total_zero_iff:
  "(\<And>x. 0 \<le> g x) \<Longrightarrow> (\<And>N. N \<in> set Ns \<Longrightarrow> finite N) \<Longrightarrow>
   overlap_total g V Ns = 0 \<longleftrightarrow> (\<forall>x \<in> seen_again V Ns. g x = 0)"
proof (induction Ns arbitrary: V)
  case Nil
  then show ?case by simp
next
  case (Cons N Ns)
  have fin: "finite (N \<inter> V)" using Cons.prems(2) by simp
  have a: "0 \<le> (\<Sum>x \<in> N \<inter> V. g x)" using Cons.prems(1) by (simp add: sum_nonneg)
  have b: "0 \<le> overlap_total g (V \<union> N) Ns" using Cons.prems(1) by (rule overlap_total_nonneg)
  have "overlap_total g V (N # Ns) = 0 \<longleftrightarrow>
        (\<Sum>x \<in> N \<inter> V. g x) = 0 \<and> overlap_total g (V \<union> N) Ns = 0"
    using a b by auto
  also have "(\<Sum>x \<in> N \<inter> V. g x) = 0 \<longleftrightarrow> (\<forall>x \<in> N \<inter> V. g x = 0)"
    using fin Cons.prems(1) by (simp add: sum_nonneg_eq_0_iff)
  also have "overlap_total g (V \<union> N) Ns = 0 \<longleftrightarrow> (\<forall>x \<in> seen_again (V \<union> N) Ns. g x = 0)"
    using Cons.prems by (intro Cons.IH) auto
  finally show ?case by auto
qed

lemma seen_again_iff:
  "x \<in> seen_again V Ns \<longleftrightarrow>
     (\<exists>j < length Ns. x \<in> V \<and> x \<in> Ns ! j) \<or>
     (\<exists>i j. i < j \<and> j < length Ns \<and> x \<in> Ns ! i \<and> x \<in> Ns ! j)"
proof (induction Ns arbitrary: V)
  case Nil
  then show ?case by simp
next
  case (Cons N Ns)
  show ?case (is "?L \<longleftrightarrow> ?A \<or> ?B")
  proof
    assume ?L
    then consider "x \<in> N" "x \<in> V" | "x \<in> seen_again (V \<union> N) Ns" by auto
    then show "?A \<or> ?B"
    proof cases
      case 1
      then have ?A by (intro exI [of _ 0]) simp
      then show ?thesis ..
    next
      case 2
      then consider j where "j < length Ns" "x \<in> V \<union> N" "x \<in> Ns ! j"
        | i j where "i < j" "j < length Ns" "x \<in> Ns ! i" "x \<in> Ns ! j"
        using Cons.IH [of "V \<union> N"] by blast
      then show ?thesis
      proof cases
        case 1
        show ?thesis
        proof (cases "x \<in> V")
          case True
          with 1 have ?A by (intro exI [of _ "Suc j"]) simp
          then show ?thesis ..
        next
          case False
          with 1 have "x \<in> N" by simp
          with 1 have ?B by (intro exI [of _ 0] exI [of _ "Suc j"]) simp
          then show ?thesis ..
        qed
      next
        case 2
        then have ?B by (intro exI [of _ "Suc i"] exI [of _ "Suc j"]) simp
        then show ?thesis ..
      qed
    qed
  next
    assume "?A \<or> ?B"
    then show ?L
    proof
      assume ?A
      then obtain j where j: "j < length (N # Ns)" "x \<in> V" "x \<in> (N # Ns) ! j" by blast
      show ?L
      proof (cases j)
        case 0
        with j show ?thesis by simp
      next
        case (Suc k)
        with j have "k < length Ns" "x \<in> V \<union> N" "x \<in> Ns ! k" by simp_all
        then have "x \<in> seen_again (V \<union> N) Ns" using Cons.IH [of "V \<union> N"] by blast
        then show ?thesis by simp
      qed
    next
      assume ?B
      then obtain i j where ij: "i < j" "j < length (N # Ns)" "x \<in> (N # Ns) ! i" "x \<in> (N # Ns) ! j"
        by blast
      then obtain k where k: "j = Suc k" by (cases j) auto
      show ?L
      proof (cases i)
        case 0
        with ij k have "k < length Ns" "x \<in> V \<union> N" "x \<in> Ns ! k" by simp_all
        then have "x \<in> seen_again (V \<union> N) Ns" using Cons.IH [of "V \<union> N"] by blast
        then show ?thesis by simp
      next
        case (Suc l)
        with ij k have "l < k" "k < length Ns" "x \<in> Ns ! l" "x \<in> Ns ! k" by simp_all
        then have "x \<in> seen_again (V \<union> N) Ns" using Cons.IH [of "V \<union> N"] by blast
        then show ?thesis by simp
      qed
    qed
  qed
qed

lemma seen_again_map:
  "seen_again {} (map f ps) =
     {x. \<exists>i j. i < j \<and> j < length ps \<and> x \<in> f (ps ! i) \<and> x \<in> f (ps ! j)}"
proof -
  have "x \<in> seen_again {} (map f ps) \<longleftrightarrow>
        (\<exists>i j. i < j \<and> j < length ps \<and> x \<in> f (ps ! i) \<and> x \<in> f (ps ! j))" for x
  proof -
    have "(i < j \<and> j < length ps \<and> x \<in> map f ps ! i \<and> x \<in> map f ps ! j) \<longleftrightarrow>
          (i < j \<and> j < length ps \<and> x \<in> f (ps ! i) \<and> x \<in> f (ps ! j))" for i j
      by (cases "i < j"; cases "j < length ps") simp_all
    then show ?thesis by (simp add: seen_again_iff)
  qed
  then show ?thesis by blast
qed

lemma seen_again_nodes: "seen_again {} (map path_nodes ps) = shared_nodes ps"
  by (simp add: seen_again_map shared_nodes_def)

lemma seen_again_edges: "seen_again {} (map path_edges ps) = shared_edges ps"
  by (simp add: seen_again_map shared_edges_def)

lemma finite_path_nodes: "finite (path_nodes p)"
  by (simp add: path_nodes_def split: path.split)

lemma finite_path_edges: "finite (path_edges p)"
  by (simp add: path_edges_def split: path.split)

lemma path_nodes_userStory4_consistent:
  assumes "path_consistent drv p"
  shows "path_nodes_userStory4 p = (\<lambda>x. (x, get_node_cost drv x)) ` path_nodes p"
proof (cases p)
  case (Str s)
  then show ?thesis by (simp add: path_nodes_userStory4_def path_nodes_def)
next
  case (Path ns rs)
  with assms have "\<forall>n \<in> set (tl ns). get_node_cost drv (device_name n) = cost n"
    by (simp add: path_consistent_def list_all_iff)
  then have "(\<lambda>n. (device_name n, cost n)) ` set (tl ns) =
             (\<lambda>n. (device_name n, get_node_cost drv (device_name n))) ` set (tl ns)"
    by (intro image_cong) simp_all
  with Path show ?thesis
    by (simp add: path_nodes_userStory4_def path_nodes_def image_image)
qed

lemma path_rels_userStory4_consistent:
  assumes "path_consistent drv p"
  shows "path_rels_userStory4 p = (\<lambda>e. (fst e, snd e, get_edge_cost drv e)) ` path_edges p"
proof (cases p)
  case (Str s)
  then show ?thesis by (simp add: path_rels_userStory4_def path_edges_def)
next
  case (Path ns rs)
  with assms have "\<forall>r \<in> set rs.
      get_edge_cost drv (device_name (start_node r), device_name (end_node r)) = rel_cost r"
    by (simp add: path_consistent_def list_all_iff)
  then have "(\<lambda>r. (device_name (start_node r), device_name (end_node r), rel_cost r)) ` set rs =
             (\<lambda>r. (device_name (start_node r), device_name (end_node r),
                    get_edge_cost drv (device_name (start_node r), device_name (end_node r)))) ` set rs"
    by (intro image_cong) simp_all
  with Path show ?thesis
    by (simp add: path_rels_userStory4_def path_edges_def image_image)
qed

lemma sum_tagged_nodes:
  "(\<Sum>(n, c) \<in> (\<lambda>x. (x, g x)) ` A \<inter> (\<lambda>x. (x, g x)) ` B. c) = (\<Sum>x \<in> A \<inter> B. g x)"
proof -
  have inj: "inj (\<lambda>x. (x, g x))" by (rule injI) simp
  have "(\<lambda>x. (x, g x)) ` A \<inter> (\<lambda>x. (x, g x)) ` B = (\<lambda>x. (x, g x)) ` (A \<inter> B)"
    using inj by (simp add: image_Int)
  moreover have "inj_on (\<lambda>x. (x, g x)) (A \<inter> B)" using inj by (rule inj_on_subset) simp
  ultimately show ?thesis by (simp add: sum.reindex o_def)
qed

lemma sum_tagged_edges:
  "(\<Sum>(s, e, c) \<in> (\<lambda>e. (fst e, snd e, g e)) ` A \<inter> (\<lambda>e. (fst e, snd e, g e)) ` B. c) =
   (\<Sum>x \<in> A \<inter> B. g x)"
proof -
  have inj: "inj (\<lambda>e. (fst e, snd e, g e))" by (rule injI) (simp add: prod_eq_iff)
  have "(\<lambda>e. (fst e, snd e, g e)) ` A \<inter> (\<lambda>e. (fst e, snd e, g e)) ` B =
        (\<lambda>e. (fst e, snd e, g e)) ` (A \<inter> B)"
    using inj by (simp add: image_Int)
  moreover have "inj_on (\<lambda>e. (fst e, snd e, g e)) (A \<inter> B)"
    using inj by (rule inj_on_subset) simp
  ultimately show ?thesis by (simp add: sum.reindex o_def)
qed

lemma calculate_total_path_cost_pair:
  "fst (calculate_total_path_cost drv [p1, p2] [c1, c2]) =
     c1 + c2 - (\<Sum>n \<in> path_nodes p1 \<inter> path_nodes p2. get_node_cost drv n)
             - (\<Sum>e \<in> path_edges p1 \<inter> path_edges p2. get_edge_cost drv e)"
  by (simp add: calculate_total_path_cost_def Int_commute)

lemma calculate_total_path_cost_userStory4_pair:
  "fst (calculate_total_path_cost_userStory4 [p1, p2] [c1, c2]) =
     c1 + c2 - ((\<Sum>(n, c) \<in> path_nodes_userStory4 p1 \<inter> path_nodes_userStory4 p2. c)
              + (\<Sum>(s, e, c) \<in> path_rels_userStory4 p1 \<inter> path_rels_userStory4 p2. c))"
  by (simp add: calculate_total_path_cost_userStory4_def set_intersection_def Let_def)

lemma foldl_Int: "foldl (\<inter>) A Bs = A \<inter> \<Inter>(set Bs)"
  by (induction Bs arbitrary: A) auto

lemma set_intersection_map:
  "1 < length paths \<Longrightarrow> set_intersection (map f paths) = on_every_path f paths"
proof -
  assume l: "1 < length paths"
  then obtain p ps where ps: "paths = p # ps" by (cases paths) auto
  show ?thesis using l by (auto simp: ps set_intersection_def foldl_Int on_every_path_def)
qed

lemma on_every_path_short: "\<not> 1 < length paths \<Longrightarrow> on_every_path f paths = {}"
  by (simp add: on_every_path_def)

lemma on_every_path_subset: "p \<in> set paths \<Longrightarrow> on_every_path f paths \<subseteq> f p"
  by (auto simp: on_every_path_def)

lemma finite_on_every_path:
  assumes "\<And>p. finite (f p)"
  shows "finite (on_every_path f paths)"
proof (cases paths)
  case Nil
  then show ?thesis by (simp add: on_every_path_def)
next
  case (Cons p ps)
  then have "on_every_path f paths \<subseteq> f p" by (intro on_every_path_subset) simp
  then show ?thesis using assms by (rule finite_subset)
qed

lemma finite_path_nodes_userStory4: "finite (path_nodes_userStory4 p)"
  by (simp add: path_nodes_userStory4_def split: path.split)

lemma finite_path_rels_userStory4: "finite (path_rels_userStory4 p)"
  by (simp add: path_rels_userStory4_def split: path.split)

lemma calculate_total_path_cost_userStory4_eq:
  "fst (calculate_total_path_cost_userStory4 paths sub_costs) =
     sum_list sub_costs
       - ((\<Sum>(n, c) \<in> on_every_path path_nodes_userStory4 paths. c)
          + (\<Sum>(s, e, c) \<in> on_every_path path_rels_userStory4 paths. c))"
proof (cases "1 < length paths")
  case True
  then show ?thesis
    by (simp add: calculate_total_path_cost_userStory4_def Let_def set_intersection_map)
next
  case False
  then show ?thesis
    by (simp add: calculate_total_path_cost_userStory4_def Let_def on_every_path_short)
qed

lemma pairwise_le_raw_sum:
  assumes "\<forall>n. 0 \<le> get_node_cost drv n" and "\<forall>e. 0 \<le> get_edge_cost drv e"
  shows "fst (calculate_total_path_cost drv paths sub_costs) \<le> sum_list sub_costs \<and>
         (fst (calculate_total_path_cost drv paths sub_costs) = sum_list sub_costs \<longleftrightarrow>
            (\<forall>n \<in> shared_nodes paths. get_node_cost drv n = 0) \<and>
            (\<forall>e \<in> shared_edges paths. get_edge_cost drv e = 0))"
proof -
  let ?on = "overlap_total (get_node_cost drv) {} (map path_nodes paths)"
  let ?oe = "overlap_total (get_edge_cost drv) {} (map path_edges paths)"
  have gn: "0 \<le> get_node_cost drv n" for n using assms(1) by blast
  have ge: "0 \<le> get_edge_cost drv e" for e using assms(2) by blast
  have fn: "finite N" if "N \<in> set (map path_nodes paths)" for N
    using that by (auto simp: finite_path_nodes)
  have fe: "finite E" if "E \<in> set (map path_edges paths)" for E
    using that by (auto simp: finite_path_edges)
  have n0: "0 \<le> ?on" by (rule overlap_total_nonneg) (rule gn)
  have e0: "0 \<le> ?oe" by (rule overlap_total_nonneg) (rule ge)
  have nz: "?on = 0 \<longleftrightarrow> (\<forall>n \<in> shared_nodes paths. get_node_cost drv n = 0)"
    using overlap_total_zero_iff [of "get_node_cost drv" "map path_nodes paths" "{}", OF gn fn]
    by (simp add: seen_again_nodes)
  have ez: "?oe = 0 \<longleftrightarrow> (\<forall>e \<in> shared_edges paths. get_edge_cost drv e = 0)"
    using overlap_total_zero_iff [of "get_edge_cost drv" "map path_edges paths" "{}", OF ge fe]
    by (simp add: seen_again_edges)
  have "fst (calculate_total_path_cost drv paths sub_costs) = sum_list sub_costs - ?on - ?oe"
    by (simp add: calculate_total_path_cost_eq)
  then show ?thesis using n0 e0 nz ez by auto
qed

lemma intersection_le_raw_sum:
  assumes "list_all path_costs_nonneg paths"
  shows "fst (calculate_total_path_cost_userStory4 paths sub_costs) \<le> sum_list sub_costs \<and>
         (fst (calculate_total_path_cost_userStory4 paths sub_costs) = sum_list sub_costs \<longleftrightarrow>
            (\<forall>(n, c) \<in> on_every_path path_nodes_userStory4 paths. c = 0) \<and>
            (\<forall>(s, e, c) \<in> on_every_path path_rels_userStory4 paths. c = 0))"
proof -
  let ?N = "on_every_path path_nodes_userStory4 paths"
  let ?R = "on_every_path path_rels_userStory4 paths"
  let ?gn = "\<lambda>x :: string \<times> int. snd x"
  let ?gr = "\<lambda>x :: string \<times> string \<times> int. snd (snd x)"
  have fN: "finite ?N" by (rule finite_on_every_path) (rule finite_path_nodes_userStory4)
  have fR: "finite ?R" by (rule finite_on_every_path) (rule finite_path_rels_userStory4)
  have nn: "0 \<le> ?gn x" if "x \<in> ?N" for x
  proof -
    from that obtain p where p: "p \<in> set paths" "x \<in> path_nodes_userStory4 p"
      by (cases paths) (auto simp: on_every_path_def)
    then have "path_costs_nonneg p" using assms by (simp add: list_all_iff)
    then show ?thesis using p(2) by (auto simp: path_costs_nonneg_def)
  qed
  have rn: "0 \<le> ?gr x" if "x \<in> ?R" for x
  proof -
    from that obtain p where p: "p \<in> set paths" "x \<in> path_rels_userStory4 p"
      by (cases paths) (auto simp: on_every_path_def)
    then have "path_costs_nonneg p" using assms by (simp add: list_all_iff)
    then show ?thesis using p(2) by (auto simp: path_costs_nonneg_def)
  qed
  have sN: "0 \<le> sum ?gn ?N" using nn by (rule sum_nonneg)
  have sR: "0 \<le> sum ?gr ?R" using rn by (rule sum_nonneg)
  have zN: "sum ?gn ?N = 0 \<longleftrightarrow> (\<forall>x \<in> ?N. ?gn x = 0)"
    using fN nn by (rule sum_nonneg_eq_0_iff)
  have zR: "sum ?gr ?R = 0 \<longleftrightarrow> (\<forall>x \<in> ?R. ?gr x = 0)"
    using fR rn by (rule sum_nonneg_eq_0_iff)
  have "fst (calculate_total_path_cost_userStory4 paths sub_costs) =
          sum_list sub_costs - (sum ?gn ?N + sum ?gr ?R)"
    by (simp add: calculate_total_path_cost_userStory4_eq split_def)
  moreover have "sum ?gn ?N + sum ?gr ?R = 0 \<longleftrightarrow> sum ?gn ?N = 0 \<and> sum ?gr ?R = 0"
    using sN sR by auto
  ultimately show ?thesis using sN sR zN zR by (auto simp: split_def)
qed

section \<open>Facts about the search\<close>

lemma foldl_invariant:
  "Q a \<Longrightarrow> (\<And>a x. x \<in> set xs \<Longrightarrow> Q a \<Longrightarrow> Q (f a x)) \<Longrightarrow> Q (foldl f a xs)"
  by (induction xs arbitrary: a) simp_all

lemma memo_all_empty [simp]: "memo_all P Map.empty"
  by (simp add: memo_all_def)

lemma memo_all_update: "memo_all P m \<Longrightarrow> P r \<Longrightarrow> memo_all P (m(k \<mapsto> r))"
  by (simp add: memo_all_def)

lemma memo_all_lookup: "memo_all P m \<Longrightarrow> m k = Some r \<Longrightarrow> P r"
  unfolding memo_all_def by blast

lemma search_unfold:
  "calculate_combined_paths_cost drv str_of (x # xs) current_path current_cost
       visited_destinations memo =
     (let all_paths_info = x # xs;
          memo0 = memo_or_new memo;
          paths_tuple = map (\<lambda>(p, c). (str_of p, c)) current_path;
          memo_key = (current_cost, paths_tuple, visited_destinations)
      in case memo0 memo_key of
           Some stored \<Rightarrow> (stored, memo0)
         | None \<Rightarrow>
            (case
               foldl (search_destination_step drv str_of all_paths_info current_path
                        visited_destinations)
                 ([], memo0) all_paths_info
             of (combined_paths_costs, memo3) \<Rightarrow>
               (let sorted_costs = sort_key snd combined_paths_costs
                in (take 5 sorted_costs, memo3(memo_key \<mapsto> take 5 sorted_costs)))))"
  unfolding search_destination_step_def search_path_step_def
  by (rule calculate_combined_paths_cost.simps(2))

declare calculate_combined_paths_cost.simps(2) [simp del]

lemma search_path_step_real:
  "\<not> is_str p \<Longrightarrow>
   search_path_step drv str_of api cur visited d (comb, memo1) (p, c) =
     (let call = calculate_combined_paths_cost drv str_of
                   (filter (\<lambda>(key, val). key \<notin> visited \<union> {d}) api) (cur @ [(p, c)])
                   (fst (calculate_total_path_cost drv (map fst cur @ [p]) (map snd cur @ [c])))
                   (visited \<union> {d}) (Some memo1)
      in (append_new comb (fst call), snd call))"
  by (simp add: search_path_step_def Let_def split_beta)

lemma search_path_step_str:
  "is_str p \<Longrightarrow> search_path_step drv str_of api cur visited d acc (p, c) = acc"
  by (simp add: search_path_step_def)

lemma search_destination_step_eq:
  "search_destination_step drv str_of api cur visited acc (d, pcs) =
     (if d \<in> visited then acc
      else foldl (search_path_step drv str_of api cur visited d) acc pcs)"
  by (simp add: search_destination_step_def)

lemma search_miss:
  assumes "api \<noteq> []"
    and "memo_or_new memo (ccost, map (\<lambda>(p, c). (str_of p, c)) cur, visited) = None"
  shows "calculate_combined_paths_cost drv str_of api cur ccost visited memo =
     (let loops = foldl (search_destination_step drv str_of api cur visited)
                    ([], memo_or_new memo) api;
          res = take 5 (sort_key snd (fst loops))
      in (res, (snd loops)((ccost, map (\<lambda>(p, c). (str_of p, c)) cur, visited) \<mapsto> res)))"
proof -
  obtain x xs where "api = x # xs" using assms(1) by (cases api) auto
  then show ?thesis
    using assms(2) by (simp add: search_unfold Let_def split_beta del: foldl_Cons)
qed

lemma search_hit:
  assumes "api \<noteq> []"
    and "memo_or_new memo (ccost, map (\<lambda>(p, c). (str_of p, c)) cur, visited) = Some stored"
  shows "calculate_combined_paths_cost drv str_of api cur ccost visited memo =
           (stored, memo_or_new memo)"
proof -
  obtain x xs where "api = x # xs" using assms(1) by (cases api) auto
  then show ?thesis using assms(2) by (simp add: search_unfold Let_def del: foldl_Cons)
qed

lemma search_invariant:
  assumes base: "\<And>cur c. P [(cur, c)]"
    and D_nil: "D []"
    and D_append: "\<And>comb subs. D comb \<Longrightarrow> D (append_new comb subs)"
    and cut: "\<And>comb. D comb \<Longrightarrow> P (take 5 (sort_key snd comb))"
    and memo: "memo_all P (memo_or_new memo)"
  shows "P (fst (calculate_combined_paths_cost drv str_of api cur ccost visited memo)) \<and>
         memo_all P (snd (calculate_combined_paths_cost drv str_of api cur ccost visited memo))"
  using memo
proof (induction "length api" arbitrary: api cur ccost visited memo rule: less_induct)
  case less
  let ?key = "(ccost, map (\<lambda>(p, c). (str_of p, c)) cur, visited)"
  show ?case
  proof (cases "api = []")
    case True
    then show ?thesis using less.prems base by simp
  next
    case False
    show ?thesis
    proof (cases "memo_or_new memo ?key")
      case (Some stored)
      then have "P stored" using less.prems by (auto dest: memo_all_lookup)
      then show ?thesis using less.prems by (simp add: search_hit [OF False Some])
    next
      case None
      let ?Q = "\<lambda>acc :: combination list \<times> memo. D (fst acc) \<and> memo_all P (snd acc)"
      have path_step: "?Q (search_path_step drv str_of api cur visited d acc pc)"
        if "(d, pcs) \<in> set api" "?Q acc" for d pcs acc pc
      proof -
        obtain p c where pc: "pc = (p, c)" by (cases pc)
        obtain comb memo1 where acc: "acc = (comb, memo1)" by (cases acc)
        show ?thesis
        proof (cases "is_str p")
          case True
          then show ?thesis using that(2) by (simp add: pc search_path_step_str)
        next
          case False
          let ?rem = "filter (\<lambda>(key, val). key \<notin> visited \<union> {d}) api"
          have "length ?rem < length api"
            using that(1) by (rule remaining_destinations_shorter)
          moreover have "memo_all P (memo_or_new (Some memo1))"
            using that(2) acc by (simp add: memo_or_new_def)
          ultimately have "memo_all P (snd (calculate_combined_paths_cost drv str_of ?rem
              (cur @ [(p, c)])
              (fst (calculate_total_path_cost drv (map fst cur @ [p]) (map snd cur @ [c])))
              (visited \<union> {d}) (Some memo1)))"
            by (intro conjunct2 [OF less.hyps])
          then show ?thesis
            using that(2) D_append by (simp add: pc acc search_path_step_real [OF False] Let_def)
        qed
      qed
      have dest_step: "?Q (search_destination_step drv str_of api cur visited acc item)"
        if "item \<in> set api" "?Q acc" for acc item
      proof -
        obtain d pcs where item: "item = (d, pcs)" by (cases item)
        have "?Q (foldl (search_path_step drv str_of api cur visited d) acc pcs)"
          using that(2)
        proof (rule foldl_invariant [where Q = ?Q])
          fix a pc
          assume "?Q a"
          then show "?Q (search_path_step drv str_of api cur visited d a pc)"
            using that(1) [unfolded item] by (rule path_step [rotated])
        qed
        then show ?thesis using that(2) by (simp add: item search_destination_step_eq)
      qed
      have "?Q (foldl (search_destination_step drv str_of api cur visited)
                  ([], memo_or_new memo) api)"
      proof (rule foldl_invariant [where Q = ?Q])
        show "?Q ([], memo_or_new memo)" using D_nil less.prems by simp
      next
        fix a item
        assume "item \<in> set api" "?Q a"
        then show "?Q (search_destination_step drv str_of api cur visited a item)"
          by (rule dest_step)
      qed
      then show ?thesis
        using cut by (simp add: search_miss [OF False None] Let_def memo_all_update)
    qed
  qed
qed

lemma path_eq_refl [simp]: "path_eq p p"
  by (cases p) (simp_all add: list_all2_refl node_eq_def relationship_eq_def)

lemma candidate_eq_pair [simp]: "candidate_eq (p, c) (q, d) \<longleftrightarrow> path_eq p q \<and> c = d"
  by (simp add: candidate_eq_def)

lemma candidate_in_Nil [simp]: "\<not> candidate_in x []"
  by (simp add: candidate_in_def)

lemma candidate_in_Cons [simp]:
  "candidate_in x (y # ys) \<longleftrightarrow> candidate_eq x y \<or> candidate_in x ys"
  by (simp add: candidate_in_def)




lemma append_new_Nil [simp]: "append_new comb [] = comb"
  by (simp add: append_new_def)

lemma append_new_Cons [simp]:
  "append_new comb ((sp, sc) # subs) =
     append_new (if path_already_exists comb sp sc then comb else comb @ [(sp, sc)]) subs"
  by (simp add: append_new_def)

lemma is_str_simps [simp]: "is_str (Str s)" "\<not> is_str (Path ns rs)"
  by (simp_all add: is_str_def)

lemma ex_not_str [simp]: "\<not> is_str (ex_path names)"
  by (simp add: ex_path_def Let_def)

lemma single_cost [simp]: "fst (calculate_total_path_cost drv [p] [c]) = c"
  by (simp add: calculate_total_path_cost_def)






lemma sorted_and_bounded_cut: "sorted_and_bounded (take 5 (sort_key snd comb))"
proof -
  have "sorted (take 5 (map snd (sort_key snd comb)))" by simp
  then show ?thesis by (simp add: sorted_and_bounded_def take_map)
qed


lemma ex_pair_cost [simp]:
  "fst (calculate_total_path_cost ex_drv [ex_S_A_M_D1, ex_S_B_M_D2] [5, 5]) = 9"
  "fst (calculate_total_path_cost ex_drv [ex_S_B_M_D2, ex_S_A_M_D1] [5, 5]) = 9"
  "fst (calculate_total_path_cost ex_drv [ex_S_A_D1, ex_S_B_M_D2] [3, 5]) = 8"
  "fst (calculate_total_path_cost ex_drv [ex_S_B_M_D2, ex_S_A_D1] [5, 3]) = 8"
  by (simp_all add: calculate_total_path_cost_pair path_nodes_def path_edges_def ex_defs)

lemma ex_paths_distinct [simp]:
  "\<not> path_eq ex_S_A_M_D1 ex_S_A_D1" "\<not> path_eq ex_S_A_D1 ex_S_A_M_D1"
  "\<not> path_eq ex_S_A_M_D1 ex_S_B_M_D2" "\<not> path_eq ex_S_B_M_D2 ex_S_A_M_D1"
  "\<not> path_eq ex_S_A_D1 ex_S_B_M_D2" "\<not> path_eq ex_S_B_M_D2 ex_S_A_D1"
  "\<not> path_eq ex_S_A_D1 ex_S_A_D1_parallel" "\<not> path_eq ex_S_A_D1_parallel ex_S_A_D1"
  by (simp_all add: ex_defs ex_S_A_D1_parallel_def relationship_eq_def)

lemma ex_paths_not_str [simp]:
  "\<not> is_str ex_S_A_M_D1" "\<not> is_str ex_S_A_D1" "\<not> is_str ex_S_B_M_D2"
  "\<not> is_str ex_S_A_D1_parallel"
  by (simp_all add: ex_S_A_M_D1_def ex_S_A_D1_def ex_S_B_M_D2_def ex_S_A_D1_parallel_def)


lemma ex_via_simps [simp]: "\<not> is_str (ex_via r)" "path_eq (ex_via r) (ex_via r') \<longleftrightarrow> r = r'"
  by (auto simp: ex_via_def ex_path_def relationship_eq_def node_eq_def)


lemma ex_api_six_result:
  "fst (calculate_combined_paths_cost ex_drv ex_str_of ex_api_six [] 0 {} None) =
     [([(ex_via ''R1'', 3)], 3), ([(ex_via ''R2'', 3)], 3), ([(ex_via ''R3'', 3)], 3),
      ([(ex_via ''R4'', 3)], 3), ([(ex_via ''R5'', 3)], 3)]"
  by (simp add: ex_api_six_def search_miss memo_or_new_def search_destination_step_eq
       search_path_step_real search_path_step_str Let_def)

lemma memo_all_new [simp]: "memo_all P (memo_or_new None)"
  by (simp add: memo_or_new_def)



lemma search_sorted_and_bounded:
  "memo_all sorted_and_bounded (memo_or_new memo) \<Longrightarrow>
   sorted_and_bounded (fst (calculate_combined_paths_cost drv str_of api cur ccost visited memo)) \<and>
   memo_all sorted_and_bounded
     (snd (calculate_combined_paths_cost drv str_of api cur ccost visited memo))"
  by (rule search_invariant [where D = "\<lambda>comb. True"])
     (simp_all add: sorted_and_bounded_cut, simp add: sorted_and_bounded_def)


lemma keys_dict_set: "fst ` set (dict_set d k v) = insert k (fst ` set d)"
  by (induction d k v rule: dict_set.induct) auto

lemma find_all_paths_keys:
  "fst ` set (find_all_paths_to_destinations run_query source_name destination_names)
     \<subseteq> {d. run_query source_name d \<noteq> []}"
  unfolding find_all_paths_to_destinations_def
  by (rule foldl_invariant [where Q = "\<lambda>info. fst ` set info \<subseteq> {d. run_query source_name d \<noteq> []}"])
     (auto simp: Let_def keys_dict_set)

lemma search_no_real_candidate:
  assumes "d \<in> fst ` set api" and "d \<notin> visited"
    and "\<forall>(k, pcs) \<in> set api. k = d \<longrightarrow> list_all (\<lambda>(p, c). is_str p) pcs"
    and "memo_all (\<lambda>r. r = []) (memo_or_new memo)"
  shows "fst (calculate_combined_paths_cost drv str_of api cur ccost visited memo) = [] \<and>
         memo_all (\<lambda>r. r = [])
           (snd (calculate_combined_paths_cost drv str_of api cur ccost visited memo))"
  using assms
proof (induction "length api" arbitrary: api cur ccost visited memo rule: less_induct)
  case less
  let ?key = "(ccost, map (\<lambda>(p, c). (str_of p, c)) cur, visited)"
  let ?E = "memo_all (\<lambda>r :: combination list. r = [])"
  have ne: "api \<noteq> []" using less.prems(1) by auto
  show ?case
  proof (cases "memo_or_new memo ?key")
    case (Some stored)
    then have "stored = []" using less.prems(4) by (auto dest: memo_all_lookup)
    then show ?thesis using less.prems(4) by (simp add: search_hit [OF ne Some])
  next
    case None
    let ?Q = "\<lambda>acc :: combination list \<times> memo. fst acc = [] \<and> ?E (snd acc)"
    have path_step: "?Q (search_path_step drv str_of api cur visited d' acc pc)"
      if "(d', pcs) \<in> set api" "pc \<in> set pcs" "?Q acc" for d' pcs acc pc
    proof -
      obtain p c where pc: "pc = (p, c)" by (cases pc)
      obtain comb memo1 where acc: "acc = (comb, memo1)" by (cases acc)
      show ?thesis
      proof (cases "is_str p")
        case True
        then show ?thesis using that(3) by (simp add: pc search_path_step_str)
      next
        case False
        have neq: "d' \<noteq> d"
        proof
          assume "d' = d"
          then have "list_all (\<lambda>(p, c). is_str p) pcs" using less.prems(3) that(1) by auto
          then show False using that(2) False by (auto simp: list_all_iff pc)
        qed
        let ?rem = "filter (\<lambda>(key, val). key \<notin> visited \<union> {d'}) api"
        have 1: "length ?rem < length api"
          using that(1) by (rule remaining_destinations_shorter)
        have 2: "d \<in> fst ` set ?rem" using less.prems(1,2) neq by force
        have 3: "d \<notin> visited \<union> {d'}" using less.prems(2) neq by simp
        have 4: "\<forall>(k, pcs) \<in> set ?rem. k = d \<longrightarrow> list_all (\<lambda>(p, c). is_str p) pcs"
          using less.prems(3) by auto
        have 5: "?E (memo_or_new (Some memo1))" using that(3) acc by (simp add: memo_or_new_def)
        note IH = less.hyps [OF 1 2 3 4 5]
        show ?thesis
          using IH by (simp add: pc acc search_path_step_real [OF False] Let_def)
             (use that(3) acc in simp)
      qed
    qed
    have dest_step: "?Q (search_destination_step drv str_of api cur visited acc item)"
      if "item \<in> set api" "?Q acc" for acc item
    proof -
      obtain d' pcs where item: "item = (d', pcs)" by (cases item)
      have "?Q (foldl (search_path_step drv str_of api cur visited d') acc pcs)"
        using that(2)
      proof (rule foldl_invariant [where Q = ?Q])
        fix a pc
        assume "pc \<in> set pcs" "?Q a"
        then show "?Q (search_path_step drv str_of api cur visited d' a pc)"
          using that(1) [unfolded item] path_step by blast
      qed
      then show ?thesis using that(2) by (simp add: item search_destination_step_eq)
    qed
    have "?Q (foldl (search_destination_step drv str_of api cur visited)
                ([], memo_or_new memo) api)"
    proof (rule foldl_invariant [where Q = ?Q])
      show "?Q ([], memo_or_new memo)" using less.prems(4) by simp
    next
      fix a item
      assume "item \<in> set api" "?Q a"
      then show "?Q (search_destination_step drv str_of api cur visited a item)"
        by (rule dest_step)
    qed
    then show ?thesis
      by (simp add: search_miss [OF ne None] Let_def memo_all_update)
  qed
qed

lemma search_rel_step:
  assumes "calculate_combined_paths_cost_rel inner outer"
  shows "(\<exists>d \<in> fst ` set (call_map outer).
            d \<notin> call_visited outer \<and> call_visited inner = call_visited outer \<union> {d} \<and>
            call_map inner =
              filter (\<lambda>(key, val). key \<notin> call_visited inner) (call_map outer)) \<and>
         length (call_map inner) < length (call_map outer)"
  using assms
proof (cases rule: calculate_combined_paths_cost_rel.cases)
  case (1 drv str_of x xs current_path current_cost visited_destinations memo xa xb
    xc xd a xe xf y aa xg xh ya xi yb xj xk xl xm)
  let ?api = "x # xs"
  have mem: "(xf, y) \<in> set ?api" using 1 by simp
  have out_map: "call_map outer = ?api" and out_vis: "call_visited outer = visited_destinations"
    using 1 by (simp_all add: call_map_def call_visited_def)
  have in_vis: "call_visited inner = visited_destinations \<union> {xf}"
    using 1 by (simp add: call_visited_def)
  have in_map: "call_map inner =
      filter (\<lambda>(key, val). key \<notin> visited_destinations \<union> {xf}) ?api"
    using 1 by (simp add: call_map_def)
  have fresh: "xf \<notin> visited_destinations" using 1 by simp
  have key: "xf \<in> fst ` set ?api" using mem by force
  have shorter: "length (filter (\<lambda>(key, val). key \<notin> visited_destinations \<union> {xf}) ?api)
          < length ?api"
    using mem by (rule remaining_destinations_shorter)
  show ?thesis
    unfolding out_map out_vis in_vis in_map
    using fresh key shorter by blast
qed

lemma search_rel_depth:
  "(calculate_combined_paths_cost_rel ^^ n) inner outer \<Longrightarrow>
   n + length (call_map inner) \<le> length (call_map outer)"
proof (induction n arbitrary: outer)
  case 0
  then show ?case by simp
next
  case (Suc n)
  then obtain mid where "(calculate_combined_paths_cost_rel ^^ n) inner mid"
    and "calculate_combined_paths_cost_rel mid outer" by auto
  then show ?case using Suc.IH [of mid] search_rel_step [of mid outer] by simp
qed

section \<open>Claims about the evaluators\<close>

text \<open>
  Claim C8.  For a Combination of exactly one chosen Path the true cost is the raw cost of
  that Path: there is nothing to subtract.  This holds for the evaluator of 1013.py (with
  any driver) and for the one of userStory4.py.
\<close>

theorem single_path_true_cost_is_raw_cost:
  "fst (calculate_total_path_cost drv [p] [c]) = c \<and>
   fst (calculate_total_path_cost_userStory4 [p] [c]) = c"
  by (simp add: calculate_total_path_cost_def calculate_total_path_cost_userStory4_def)

text \<open>
  Claim C9.  Two Paths that share exactly one node \<open>m\<close> (outside the source) and no edge
  cost the sum of their raw costs minus the cost of \<open>m\<close>.  For 1013.py the cost of \<open>m\<close>
  is the one the driver returns; for userStory4.py it is the cost \<open>c\<close> the node carries
  in the path objects.
\<close>

theorem one_shared_node_subtracted_once:
  "(path_nodes p1 \<inter> path_nodes p2 = {m} \<and> path_edges p1 \<inter> path_edges p2 = {}
      \<longrightarrow> fst (calculate_total_path_cost drv [p1, p2] [c1, c2]) = c1 + c2 - get_node_cost drv m) \<and>
   (path_nodes_userStory4 p1 \<inter> path_nodes_userStory4 p2 = {(m, c)} \<and>
    path_rels_userStory4 p1 \<inter> path_rels_userStory4 p2 = {}
      \<longrightarrow> fst (calculate_total_path_cost_userStory4 [p1, p2] [c1, c2]) = c1 + c2 - c)"
  by (simp add: calculate_total_path_cost_def calculate_total_path_cost_userStory4_def
      set_intersection_def Int_commute)

lemma ex_pair_nodes: "path_nodes ex_S_A_M_D1 \<inter> path_nodes ex_S_B_M_D2 = {''M''}"
  by (simp add: path_nodes_def ex_defs)
lemma ex_pair_edges: "path_edges ex_S_A_M_D1 \<inter> path_edges ex_S_B_M_D2 = {}"
  by (simp add: path_edges_def ex_defs)
lemma ex_pair_nodes4: "path_nodes_userStory4 ex_S_A_M_D1 \<inter> path_nodes_userStory4 ex_S_B_M_D2 = {(''M'', 1)}"
  by (simp add: path_nodes_userStory4_def ex_defs)
lemma ex_pair_rels4: "path_rels_userStory4 ex_S_A_M_D1 \<inter> path_rels_userStory4 ex_S_B_M_D2 = {}"
  by (simp add: path_rels_userStory4_def ex_defs)

theorem one_shared_node_subtracted_once_witness:
  "path_nodes ex_S_A_M_D1 \<inter> path_nodes ex_S_B_M_D2 = {''M''} \<and>
   path_edges ex_S_A_M_D1 \<inter> path_edges ex_S_B_M_D2 = {} \<and>
   path_nodes_userStory4 ex_S_A_M_D1 \<inter> path_nodes_userStory4 ex_S_B_M_D2 = {(''M'', 1)} \<and>
   path_rels_userStory4 ex_S_A_M_D1 \<inter> path_rels_userStory4 ex_S_B_M_D2 = {} \<and>
   fst (calculate_total_path_cost ex_drv [ex_S_A_M_D1, ex_S_B_M_D2] [5, 5]) = 9 \<and>
   fst (calculate_total_path_cost_userStory4 [ex_S_A_M_D1, ex_S_B_M_D2] [5, 5]) = 9"
  using one_shared_node_subtracted_once
    [of ex_S_A_M_D1 ex_S_B_M_D2 "''M''" ex_drv 5 5 1]
  by (simp add: ex_pair_nodes ex_pair_edges ex_pair_nodes4 ex_pair_rels4)

text \<open>
  Claim C2 says that, next to the true cost, the evaluator returns exactly the nodes that
  occur in two or more of the paths.  On the single path \<open>S \<rightarrow> A \<rightarrow> D1\<close> of raw cost 3 no node
  occurs twice, and the evaluator of userStory4.py returns the empty set, but the one of
  1013.py returns \<open>visited_nodes\<close>: every node of \<open>path.nodes[1:]\<close>, here \<open>A\<close> and \<open>D1\<close>.
\<close>

theorem returned_node_set_is_all_visited:
  "calculate_total_path_cost drv [ex_S_A_D1] [3] = (3, {''A'', ''D1''}) \<and>
   shared_nodes [ex_S_A_D1] = {} \<and>
   calculate_total_path_cost_userStory4 [ex_S_A_D1] [3] = (3, {})"
  by (simp add: calculate_total_path_cost_def calculate_total_path_cost_userStory4_def
      path_nodes_def path_edges_def ex_defs)

text \<open>
  Claim C3, amended.  With non-negative node and edge costs the true cost of a Combination
  is at most the sum of the raw costs of its Paths, for both evaluators.  For the pairwise
  evaluator (1013.py, costs from the driver) the two are equal if and only if every node
  and every edge shared between two or more of its Paths has cost zero.  For the
  set-intersection evaluator (userStory4.py, costs from the path objects) they are equal
  if and only if every node and every relationship that lies on all of its Paths, two or
  more, has cost zero.  Both hold in particular when nothing is shared.
\<close>

theorem evaluator_le_raw_sum:
  assumes "\<forall>n. 0 \<le> get_node_cost drv n" and "\<forall>e. 0 \<le> get_edge_cost drv e"
    and "list_all path_costs_nonneg paths"
  shows "fst (calculate_total_path_cost drv paths sub_costs) \<le> sum_list sub_costs \<and>
         (fst (calculate_total_path_cost drv paths sub_costs) = sum_list sub_costs \<longleftrightarrow>
            (\<forall>n \<in> shared_nodes paths. get_node_cost drv n = 0) \<and>
            (\<forall>e \<in> shared_edges paths. get_edge_cost drv e = 0)) \<and>
         fst (calculate_total_path_cost_userStory4 paths sub_costs) \<le> sum_list sub_costs \<and>
         (fst (calculate_total_path_cost_userStory4 paths sub_costs) = sum_list sub_costs \<longleftrightarrow>
            (\<forall>(n, c) \<in> on_every_path path_nodes_userStory4 paths. c = 0) \<and>
            (\<forall>(s, e, c) \<in> on_every_path path_rels_userStory4 paths. c = 0))"
  using pairwise_le_raw_sum [OF assms(1,2), of paths sub_costs]
    intersection_le_raw_sum [OF assms(3), of sub_costs]
  by blast

text \<open>
  Claim C3 as stated asks for equality only when nothing is shared.  The paths
  \<open>S \<rightarrow> A \<rightarrow> D3 \<rightarrow> D1\<close> and \<open>S \<rightarrow> B \<rightarrow> D3 \<rightarrow> D2\<close> share the node \<open>D3\<close>, a destination
  device and so of cost 0, and both evaluators return the sum of the raw costs.  The
  set-intersection evaluator also returns the sum of the raw costs on three paths of which
  two share the node \<open>M\<close> of cost 1.
\<close>

theorem equality_despite_shared_node:
  "(\<forall>n. 0 \<le> get_node_cost ex_drv n) \<and> (\<forall>e. 0 \<le> get_edge_cost ex_drv e) \<and>
   list_all path_costs_nonneg [ex_S_A_D3_D1, ex_S_B_D3_D2] \<and>
   fst (calculate_total_path_cost ex_drv [ex_S_A_D3_D1, ex_S_B_D3_D2] [4, 4]) = 4 + 4 \<and>
   fst (calculate_total_path_cost_userStory4 [ex_S_A_D3_D1, ex_S_B_D3_D2] [4, 4]) = 4 + 4 \<and>
   ''D3'' \<in> shared_nodes [ex_S_A_D3_D1, ex_S_B_D3_D2] \<and>
   list_all path_costs_nonneg [ex_S_A_M_D1, ex_S_B_M_D2, ex_S_C_D3] \<and>
   fst (calculate_total_path_cost_userStory4 [ex_S_A_M_D1, ex_S_B_M_D2, ex_S_C_D3] [5, 5, 3])
     = 5 + 5 + 3 \<and>
   ''M'' \<in> shared_nodes [ex_S_A_M_D1, ex_S_B_M_D2, ex_S_C_D3] \<and>
   (''M'', 1) \<in> path_nodes_userStory4 ex_S_A_M_D1 \<inter> path_nodes_userStory4 ex_S_B_M_D2"
proof -
  have "''M'' \<in> shared_nodes [ex_S_A_M_D1, ex_S_B_M_D2, ex_S_C_D3]"
    unfolding shared_nodes_def
    by (rule CollectI, rule exI [of _ 0], rule exI [of _ 1])
       (simp add: path_nodes_def ex_defs)
  then show ?thesis
    by (simp add: shared_nodes_pair calculate_total_path_cost_def
        calculate_total_path_cost_userStory4_def set_intersection_def path_costs_nonneg_def
        path_nodes_def path_edges_def path_nodes_userStory4_def path_rels_userStory4_def ex_defs)
qed

theorem evaluator_le_raw_sum_witness:
  "(\<forall>n. 0 \<le> get_node_cost ex_drv n) \<and> (\<forall>e. 0 \<le> get_edge_cost ex_drv e) \<and>
   list_all path_costs_nonneg [ex_S_A_M_D1, ex_S_B_M_D2] \<and>
   fst (calculate_total_path_cost ex_drv [ex_S_A_M_D1, ex_S_B_M_D2] [5, 5]) \<le> 5 + 5 \<and>
   fst (calculate_total_path_cost ex_drv [ex_S_A_M_D1, ex_S_B_M_D2] [5, 5]) \<noteq> 5 + 5 \<and>
   get_node_cost ex_drv ''M'' = 1 \<and> ''M'' \<in> shared_nodes [ex_S_A_M_D1, ex_S_B_M_D2] \<and>
   fst (calculate_total_path_cost_userStory4 [ex_S_A_M_D1, ex_S_B_M_D2] [5, 5]) \<le> 5 + 5 \<and>
   fst (calculate_total_path_cost_userStory4 [ex_S_A_M_D1, ex_S_B_M_D2] [5, 5]) \<noteq> 5 + 5 \<and>
   (''M'', 1) \<in> on_every_path path_nodes_userStory4 [ex_S_A_M_D1, ex_S_B_M_D2]"
proof -
  have nn: "list_all path_costs_nonneg [ex_S_A_M_D1, ex_S_B_M_D2]"
    by (simp add: path_costs_nonneg_def path_nodes_userStory4_def path_rels_userStory4_def ex_defs)
  have m: "(''M'', 1) \<in> on_every_path path_nodes_userStory4 [ex_S_A_M_D1, ex_S_B_M_D2]"
    by (simp add: on_every_path_def path_nodes_userStory4_def ex_defs)
  have u: "fst (calculate_total_path_cost_userStory4 [ex_S_A_M_D1, ex_S_B_M_D2] [5, 5]) = 9"
    by (simp add: calculate_total_path_cost_userStory4_pair ex_pair_nodes4 ex_pair_rels4)
  from nn m u evaluator_le_raw_sum [of ex_drv "[ex_S_A_M_D1, ex_S_B_M_D2]" "[5, 5]"]
  show ?thesis
    by (simp add: shared_nodes_pair shared_edges_pair ex_pair_nodes ex_pair_edges)
qed

text \<open>
  Claim C4.  On exactly two Paths whose nodes and relationships carry the costs the driver
  returns, the pairwise-first-occurrence evaluator (1013.py) and the set-intersection
  evaluator (userStory4.py) return the same true cost.  On the three paths
  \<open>S \<rightarrow> A \<rightarrow> M \<rightarrow> D1\<close>, \<open>S \<rightarrow> B \<rightarrow> M \<rightarrow> D2\<close>, \<open>S \<rightarrow> C \<rightarrow> D3\<close> they differ: the first
  subtracts the cost of \<open>M\<close>, which two of the paths share, the second subtracts nothing,
  since no node is on all three.
\<close>

theorem strategies_agree_on_two_paths_only:
  "(path_consistent drv p1 \<and> path_consistent drv p2 \<longrightarrow>
      fst (calculate_total_path_cost drv [p1, p2] [c1, c2]) =
      fst (calculate_total_path_cost_userStory4 [p1, p2] [c1, c2])) \<and>
   (list_all (path_consistent ex_drv) [ex_S_A_M_D1, ex_S_B_M_D2, ex_S_C_D3] \<and>
    fst (calculate_total_path_cost ex_drv [ex_S_A_M_D1, ex_S_B_M_D2, ex_S_C_D3] [5, 5, 3]) = 12 \<and>
    fst (calculate_total_path_cost_userStory4 [ex_S_A_M_D1, ex_S_B_M_D2, ex_S_C_D3] [5, 5, 3]) = 13)"
proof (intro conjI impI)
  assume c: "path_consistent drv p1 \<and> path_consistent drv p2"
  show "fst (calculate_total_path_cost drv [p1, p2] [c1, c2]) =
        fst (calculate_total_path_cost_userStory4 [p1, p2] [c1, c2])"
    using c
    by (simp add: calculate_total_path_cost_pair calculate_total_path_cost_userStory4_pair
        path_nodes_userStory4_consistent [of drv] path_rels_userStory4_consistent [of drv]
        sum_tagged_nodes sum_tagged_edges)
next
  show "list_all (path_consistent ex_drv) [ex_S_A_M_D1, ex_S_B_M_D2, ex_S_C_D3]"
    by (simp add: path_consistent_def ex_defs)
next
  show "fst (calculate_total_path_cost ex_drv [ex_S_A_M_D1, ex_S_B_M_D2, ex_S_C_D3] [5, 5, 3]) = 12"
    by (simp add: calculate_total_path_cost_def path_nodes_def path_edges_def ex_defs)
next
  show "fst (calculate_total_path_cost_userStory4 [ex_S_A_M_D1, ex_S_B_M_D2, ex_S_C_D3] [5, 5, 3]) = 13"
    by (simp add: calculate_total_path_cost_userStory4_def set_intersection_def
        path_nodes_userStory4_def path_rels_userStory4_def ex_defs)
qed

theorem strategies_agree_on_two_paths_only_witness:
  "path_consistent ex_drv ex_S_A_M_D1 \<and> path_consistent ex_drv ex_S_B_M_D2 \<and>
   fst (calculate_total_path_cost ex_drv [ex_S_A_M_D1, ex_S_B_M_D2] [5, 5]) = 9 \<and>
   fst (calculate_total_path_cost_userStory4 [ex_S_A_M_D1, ex_S_B_M_D2] [5, 5]) = 9"
proof -
  have c: "path_consistent ex_drv ex_S_A_M_D1 \<and> path_consistent ex_drv ex_S_B_M_D2"
    by (simp add: path_consistent_def ex_defs)
  have "fst (calculate_total_path_cost ex_drv [ex_S_A_M_D1, ex_S_B_M_D2] [5, 5]) = 9"
    by (simp add: calculate_total_path_cost_pair ex_pair_nodes ex_pair_edges)
  with c strategies_agree_on_two_paths_only [of ex_drv ex_S_A_M_D1 ex_S_B_M_D2 5 5]
  show ?thesis by simp
qed

section \<open>Claims about the search\<close>

text \<open>
  Claim C1, amended.  No placeholder Path is substituted.  A destination for which the
  database returns no path is left out of the candidate-list map by
  \<open>find_all_paths_to_destinations\<close>; and when a destination of the map that is not yet
  visited has only placeholder strings as candidates (or none at all), the search skips
  them and returns the empty list.  The search is a total function: it returns on every
  input.
\<close>

theorem placeholder_only_destination_gives_no_combination:
  "(run_query source_name d = [] \<longrightarrow>
      d \<notin> fst ` set (find_all_paths_to_destinations run_query source_name destination_names)) \<and>
   (d \<in> fst ` set all_paths_info \<and> d \<notin> visited_destinations \<and>
    (\<forall>(k, paths_and_costs) \<in> set all_paths_info.
        k = d \<longrightarrow> list_all (\<lambda>(p, c). is_str p) paths_and_costs) \<longrightarrow>
      fst (calculate_combined_paths_cost drv str_of all_paths_info current_path current_cost
             visited_destinations None) = [])"
proof (intro conjI impI)
  assume "run_query source_name d = []"
  then show "d \<notin> fst ` set (find_all_paths_to_destinations run_query source_name destination_names)"
    using find_all_paths_keys [of run_query source_name destination_names] by auto
next
  assume a: "d \<in> fst ` set all_paths_info \<and> d \<notin> visited_destinations \<and>
    (\<forall>(k, paths_and_costs) \<in> set all_paths_info.
        k = d \<longrightarrow> list_all (\<lambda>(p, c). is_str p) paths_and_costs)"
  show "fst (calculate_combined_paths_cost drv str_of all_paths_info current_path current_cost
             visited_destinations None) = []"
    using a search_no_real_candidate [of d all_paths_info visited_destinations None drv str_of
        current_path current_cost]
    by simp
qed

text \<open>
  Claim C1 as stated promises Combinations over all requested destinations, with a
  zero-cost placeholder in the slot of a destination without a real candidate.  With one
  real path to \<open>D1\<close> and only a placeholder (or nothing) for \<open>D2\<close> the search returns no
  Combination at all; and when the database has no path to \<open>D2\<close>, the map built for the
  search has no entry for \<open>D2\<close> and the only Combination covers \<open>D1\<close> alone.
\<close>

theorem placeholder_only_destination_is_not_filled:
  "fst (calculate_combined_paths_cost ex_drv ex_str_of
          [(''D1'', [(ex_S_A_D1, 3)]), (''D2'', [(Str ''no path'', 0)])] [] 0 {} None) = [] \<and>
   fst (calculate_combined_paths_cost ex_drv ex_str_of
          [(''D1'', [(ex_S_A_D1, 3)]), (''D2'', [])] [] 0 {} None) = [] \<and>
   find_all_paths_to_destinations ex_query ''S'' [''D1'', ''D2''] = [(''D1'', [(ex_S_A_D1, 3)])] \<and>
   fst (calculate_combined_paths_cost ex_drv ex_str_of
          (find_all_paths_to_destinations ex_query ''S'' [''D1'', ''D2'']) [] 0 {} None) =
     [([(ex_S_A_D1, 3)], 3)]"
proof -
  have f: "find_all_paths_to_destinations ex_query ''S'' [''D1'', ''D2''] =
             [(''D1'', [(ex_S_A_D1, 3)])]"
    by (simp add: find_all_paths_to_destinations_def ex_query_def)
  show ?thesis
    unfolding f
    by (simp add: search_miss memo_or_new_def search_destination_step_eq
        search_path_step_real search_path_step_str Let_def)
qed

theorem placeholder_only_destination_gives_no_combination_witness:
  "ex_query ''S'' ''D2'' = [] \<and>
   ''D2'' \<notin> fst ` set (find_all_paths_to_destinations ex_query ''S'' [''D1'', ''D2'']) \<and>
   ''D2'' \<in> fst ` set [(''D1'', [(ex_S_A_D1, 3)]), (''D2'', [(Str ''no path'', 0)])] \<and>
   list_all (\<lambda>(p, c). is_str p) [(Str ''no path'', 0 :: int)] \<and>
   fst (calculate_combined_paths_cost ex_drv ex_str_of
          [(''D1'', [(ex_S_A_D1, 3)]), (''D2'', [(Str ''no path'', 0)])] [] 0 {} None) = []"
  using placeholder_only_destination_gives_no_combination
    [of ex_query "''S''" "''D2''" "[''D1'', ''D2'']"
        "[(''D1'', [(ex_S_A_D1, 3)]), (''D2'', [(Str ''no path'', 0)])]" "{}"
        ex_drv ex_str_of "[]" 0]
  by (simp add: ex_query_def)

text \<open>
  Claim C5.  The list the top-level search returns is sorted ascending by true cost and
  has at most 5 entries.  The same holds for every recursive call: a call that is given a
  memo dictionary whose stored lists are all sorted and of length at most 5 returns such
  a list and leaves such a dictionary.
\<close>

theorem result_sorted_at_most_five:
  "(let res = fst (calculate_combined_paths_cost drv str_of all_paths_info [] 0 {} None)
    in sorted (map snd res) \<and> length res \<le> 5) \<and>
   (memo_all sorted_and_bounded memo \<longrightarrow>
     (case calculate_combined_paths_cost drv str_of remaining current_path current_cost
             visited_destinations (Some memo) of
        (res, memo') \<Rightarrow>
          sorted (map snd res) \<and> length res \<le> 5 \<and> memo_all sorted_and_bounded memo'))"
proof (intro conjI impI)
  show "let res = fst (calculate_combined_paths_cost drv str_of all_paths_info [] 0 {} None)
        in sorted (map snd res) \<and> length res \<le> 5"
    using search_sorted_and_bounded [of None drv str_of all_paths_info "[]" 0 "{}"]
    by (simp add: sorted_and_bounded_def)
next
  assume "memo_all sorted_and_bounded memo"
  then have "memo_all sorted_and_bounded (memo_or_new (Some memo))"
    by (simp add: memo_or_new_def)
  from search_sorted_and_bounded [OF this, of drv str_of remaining current_path current_cost
      visited_destinations]
  show "case calculate_combined_paths_cost drv str_of remaining current_path current_cost
             visited_destinations (Some memo) of
        (res, memo') \<Rightarrow>
          sorted (map snd res) \<and> length res \<le> 5 \<and> memo_all sorted_and_bounded memo'"
    by (simp add: sorted_and_bounded_def split_beta)
qed

theorem result_sorted_at_most_five_witness:
  "fst (calculate_combined_paths_cost ex_drv ex_str_of ex_api_six [] 0 {} None) =
     [([(ex_via ''R1'', 3)], 3), ([(ex_via ''R2'', 3)], 3), ([(ex_via ''R3'', 3)], 3),
      ([(ex_via ''R4'', 3)], 3), ([(ex_via ''R5'', 3)], 3)] \<and>
   length (fst (calculate_combined_paths_cost ex_drv ex_str_of ex_api_six [] 0 {} None)) \<le> 5 \<and>
   memo_all sorted_and_bounded Map.empty \<and>
   fst (calculate_combined_paths_cost ex_drv ex_str_of ex_api_two [] 0 {} (Some Map.empty)) =
     [([(ex_S_A_D1, 3), (ex_S_B_M_D2, 5)], 8), ([(ex_S_A_M_D1, 5), (ex_S_B_M_D2, 5)], 9)] \<and>
   sorted (map snd (fst (calculate_combined_paths_cost ex_drv ex_str_of ex_api_two [] 0 {}
                           (Some Map.empty))))"
proof -
  have m: "memo_all sorted_and_bounded Map.empty" by simp
  have r: "fst (calculate_combined_paths_cost ex_drv ex_str_of ex_api_two [] 0 {} (Some Map.empty)) =
     [([(ex_S_A_D1, 3), (ex_S_B_M_D2, 5)], 8), ([(ex_S_A_M_D1, 5), (ex_S_B_M_D2, 5)], 9)]"
    by (simp add: ex_api_two_def search_miss memo_or_new_def search_destination_step_eq
       search_path_step_real search_path_step_str Let_def)
  from m result_sorted_at_most_five [of ex_drv ex_str_of ex_api_six Map.empty ex_api_two "[]" 0 "{}"]
  show ?thesis by (simp add: r ex_api_six_result split_beta)
qed




text \<open>
  Claim C7.  The search called on the empty candidate-list map in its initial state (empty
  partial combination, cost 0, nothing visited, no memo dictionary) returns exactly one
  result, the empty Combination with cost 0.
\<close>

theorem empty_destination_set_gives_empty_combination:
  "calculate_combined_paths_cost drv str_of [] [] 0 {} None = ([([], 0)], Map.empty)"
  by (simp add: memo_or_new_def)

text \<open>
  Claim C10.  The recursive search terminates on every input (every argument tuple is in
  the domain of the recursion), whatever the candidate lists hold.  Every recursive call
  is made for a destination of the caller's map that is not yet visited, adds it to the
  visited set, and runs on the map of the destinations not visited, which is strictly
  shorter; so a chain of \<open>n\<close> nested calls below a call has \<open>n\<close> at most the number of
  destinations of that call's map.
\<close>

theorem search_terminates_depth_bounded:
  "calculate_combined_paths_cost_dom
     (drv, str_of, all_paths_info, current_path, current_cost, visited_destinations, memo) \<and>
   (calculate_combined_paths_cost_rel inner outer \<longrightarrow>
      (\<exists>d \<in> fst ` set (call_map outer).
          d \<notin> call_visited outer \<and> call_visited inner = call_visited outer \<union> {d} \<and>
          call_map inner =
            filter (\<lambda>(key, val). key \<notin> call_visited inner) (call_map outer)) \<and>
      length (call_map inner) < length (call_map outer)) \<and>
   ((calculate_combined_paths_cost_rel ^^ n) inner outer \<longrightarrow> n \<le> length (call_map outer))"
proof -
  have "calculate_combined_paths_cost_dom
     (drv, str_of, all_paths_info, current_path, current_cost, visited_destinations, memo)"
    using calculate_combined_paths_cost_total by blast
  moreover have "n \<le> length (call_map outer)"
    if "(calculate_combined_paths_cost_rel ^^ n) inner outer"
    using search_rel_depth [OF that] by simp
  ultimately show ?thesis using search_rel_step [of inner outer] by blast
qed

theorem search_terminates_depth_bounded_witness:
  "calculate_combined_paths_cost_rel
     (ex_drv, ex_str_of, [(''D2'', [(Str ''no path'', 0)])], [(ex_S_A_D1, 3)], 3, {''D1''},
      Some Map.empty)
     (ex_drv, ex_str_of, [(''D1'', [(ex_S_A_D1, 3)]), (''D2'', [(Str ''no path'', 0)])], [], 0, {},
      None) \<and>
   length [(''D2'', [(Str ''no path'', 0 :: int)])]
     < length [(''D1'', [(ex_S_A_D1, 3)]), (''D2'', [(Str ''no path'', 0 :: int)])]"
proof -
  have r: "calculate_combined_paths_cost_rel
     (ex_drv, ex_str_of, [(''D2'', [(Str ''no path'', 0)])], [(ex_S_A_D1, 3)], 3, {''D1''},
      Some Map.empty)
     (ex_drv, ex_str_of, [(''D1'', [(ex_S_A_D1, 3)]), (''D2'', [(Str ''no path'', 0)])], [], 0, {},
      None)"
    by (rule calculate_combined_paths_cost_rel.intros
          [where xe = "(''D1'', [(ex_S_A_D1, 3)])" and xg = "(ex_S_A_D1, 3)"
             and aa = "([], Map.empty)" and xb = Map.empty])
       (simp_all add: memo_or_new_def)+
  from r search_terminates_depth_bounded
    [of ex_drv ex_str_of "[]" "[]" 0 "{}" None
        "(ex_drv, ex_str_of, [(''D2'', [(Str ''no path'', 0)])], [(ex_S_A_D1, 3)], 3, {''D1''},
          Some Map.empty)"
        "(ex_drv, ex_str_of, [(''D1'', [(ex_S_A_D1, 3)]), (''D2'', [(Str ''no path'', 0)])], [], 0,
          {}, None)" 1]
  show ?thesis by (simp add: call_map_def)
qed

end
